theory Spec2Isabelle
  imports Complex_Main "HOL-Library.AList"
begin

section \<open>Numeric conventions\<close>

text \<open>
  The Python sources compute with \<open>float64\<close> and with NumPy \<open>int32\<close> arrays.
  In this development a \<open>float64\<close> is idealised as a \<^typ>\<open>real\<close> (exact arithmetic,
  literals such as \<open>1e-9\<close> read as the decimal fraction they denote), and an \<open>int32\<close>
  array cell as an \<^typ>\<open>int\<close>.  The outcomes passed to \<open>update_batch\<close> are integers, as
  its docstring and the unit test have them.

  The integer reading is exact as long as every value that the code stores in an
  \<open>int32\<close> array, or combines with an \<open>int32\<close> scalar, is below \<open>2^31\<close>.  These values are
  bounded by \<open>total_budget\<close> and by \<open>M * n_up\<close>, so this holds when \<open>total_budget < 2^31 - 1\<close>
  and \<open>M * n_up < 2^31 - 1\<close>.  Beyond that range NumPy raises \<open>OverflowError\<close> or wraps around,
  depending on its version (at \<open>give[:] = remain // len(give)\<close> and at \<open>diff -= take\<close>, for
  instance); that behaviour is not modelled, and the theorems on infeasible budgets and on
  the even split carry the range as a hypothesis.  Memory and running time are not modelled.

  Rounding is not modelled either: an equality between objective values is an equality of
  real numbers, and the floor in \<open>scale_down\<close> is the floor of the exact product.
\<close>

datatype error = AssertionError | ZeroDivisionError

section \<open>success_estimator.py\<close>

text \<open>The object state of \<open>SuccessRateEstimator\<close>; the dictionary \<open>_succ_fail_ema\<close> is a map.\<close>

record estimator =
  ema :: real
  alpha :: real
  beta :: real
  succ_fail_ema :: "string \<rightharpoonup> real \<times> real"

definition init :: "real \<Rightarrow> real \<Rightarrow> real \<Rightarrow> error + estimator" where
  "init e a b =
     (if 0 < e \<and> e < 1
      then Inr \<lparr>ema = e, alpha = a, beta = b, succ_fail_ema = Map.empty\<rparr>
      else Inl AssertionError)"

text \<open>\<open>d.get(k, dflt)\<close> on an insertion-ordered dictionary kept as an association list.\<close>

definition get_default :: "('k \<times> 'v) list \<Rightarrow> 'k \<Rightarrow> 'v \<Rightarrow> 'v" where
  "get_default d k dflt = (case map_of d k of None \<Rightarrow> dflt | Some v \<Rightarrow> v)"

text \<open>One iteration of the aggregation loop: \<open>s = int(s > 0)\<close>, then count.\<close>

fun aggr_step :: "(string \<times> int \<times> int) list \<Rightarrow> string \<times> int \<Rightarrow> (string \<times> int \<times> int) list" where
  "aggr_step step_aggr (u, s) =
     (let s' = (if s > 0 then 1 else 0 :: int);
          (a, b) = get_default step_aggr u (0, 0);
          (a, b) = (if s' \<noteq> 0 then (a + 1, b) else (a, b + 1))
      in AList.update u (a, b) step_aggr)"

definition aggregate :: "string list \<Rightarrow> int list \<Rightarrow> (string \<times> int \<times> int) list" where
  "aggregate uids successes = foldl aggr_step [] (zip uids successes)"

text \<open>One iteration of the EMA loop over \<open>step_aggr.items()\<close>.\<close>

fun ema_step :: "real \<Rightarrow> (string \<rightharpoonup> real \<times> real) \<Rightarrow> string \<times> int \<times> int \<Rightarrow> (string \<rightharpoonup> real \<times> real)" where
  "ema_step e store (u, a, b) =
     (let (sa, sb) = (case store u of None \<Rightarrow> (0, 0) | Some x \<Rightarrow> x);
          sa' = e * sa + (1 - e) * real_of_int a;
          sb' = e * sb + (1 - e) * real_of_int b
      in store(u \<mapsto> (sa', sb')))"

definition update_batch :: "estimator \<Rightarrow> string list \<Rightarrow> int list \<Rightarrow> error + estimator" where
  "update_batch est uids successes =
     (if length uids \<noteq> length successes then Inl AssertionError
      else Inr (est\<lparr>succ_fail_ema :=
                  foldl (ema_step (ema est)) (succ_fail_ema est) (aggregate uids successes)\<rparr>))"

text \<open>One cell of \<open>estimate\<close>; Python's float division raises on a zero denominator.\<close>

definition estimate_one :: "estimator \<Rightarrow> string \<Rightarrow> error + real" where
  "estimate_one est u =
     (let (sa, sb) = (case succ_fail_ema est u of None \<Rightarrow> (0, 0) | Some x \<Rightarrow> x);
          den = alpha est + beta est + sa + sb + 1 / 10 ^ 9
      in if den = 0 then Inl ZeroDivisionError else Inr ((alpha est + sa) / den))"

fun estimate :: "estimator \<Rightarrow> string list \<Rightarrow> error + real list" where
  "estimate est [] = Inr []"
| "estimate est (u # us) =
     (case estimate_one est u of
        Inl err \<Rightarrow> Inl err
      | Inr x \<Rightarrow> (case estimate est us of Inl err \<Rightarrow> Inl err | Inr xs \<Rightarrow> Inr (x # xs)))"

text \<open>A run of the estimator: construction followed by a sequence of \<open>update_batch\<close> calls,
  stopping at the first call that raises.\<close>

fun run_batches :: "estimator \<Rightarrow> (string list \<times> int list) list \<Rightarrow> error + estimator" where
  "run_batches est [] = Inr est"
| "run_batches est ((uids, successes) # rest) =
     (case update_batch est uids successes of
        Inl err \<Rightarrow> Inl err
      | Inr est' \<Rightarrow> run_batches est' rest)"

text \<open>Specification-side counts: the successes and failures a key has within one call.\<close>

definition n_succ :: "string \<Rightarrow> (string \<times> int) list \<Rightarrow> int" where
  "n_succ u kos = int (length (filter (\<lambda>(k, s). k = u \<and> s > 0) kos))"

definition n_fail :: "string \<Rightarrow> (string \<times> int) list \<Rightarrow> int" where
  "n_fail u kos = int (length (filter (\<lambda>(k, s). k = u \<and> \<not> s > 0) kos))"

definition counters :: "estimator \<Rightarrow> string \<Rightarrow> real \<times> real" where
  "counters est u = (case succ_fail_ema est u of None \<Rightarrow> (0, 0) | Some x \<Rightarrow> x)"

section \<open>allocator.py\<close>

subsection \<open>The value model\<close>

definition prob_nonzero_grad :: "int \<Rightarrow> real \<Rightarrow> real" where
  "prob_nonzero_grad N p =
     (if p \<le> 0 \<or> p \<ge> 1 \<or> N \<le> 0 then 0
      else 1 - p ^ nat N - (1 - p) ^ nat N)"

definition info_gain :: "real \<Rightarrow> real" where
  "info_gain p = (if p \<le> 0 \<or> p \<ge> 1 then 0 else p * (1 - p) * (1 - p))"

definition value_table :: "real \<Rightarrow> int \<Rightarrow> int \<Rightarrow> real list" where
  "value_table p n_low n_up = map (\<lambda>k. prob_nonzero_grad k p * info_gain p) [n_low..n_up]"

subsection \<open>The dynamic programme\<close>

text \<open>The sentinel \<open>-1e30\<close> that fills the table, and the test \<open>cand <= -1e29\<close>.\<close>

definition NEG :: real where
  "NEG = - (10 ^ 30)"

text \<open>
  The body of the innermost loop for one \<open>k_extra\<close>; the loop state is \<open>(best, best_k)\<close>,
  \<open>prev\<close> is the row \<open>dp[i - 1]\<close> and \<open>vi\<close> the value table of item \<open>i\<close>.
\<close>

fun inner_step :: "real list \<Rightarrow> real list \<Rightarrow> int \<Rightarrow> real \<times> int \<Rightarrow> int \<Rightarrow> real \<times> int" where
  "inner_step prev vi b (best, best_k) k_extra =
     (let cand = prev ! nat (b - k_extra)
      in if cand \<le> - (10 ^ 29) then (best, best_k)
         else let inc = (if k_extra > 0 then vi ! nat k_extra - vi ! 0 else 0);
                  val = cand + inc
              in if val > best then (val, k_extra) else (best, best_k))"

text \<open>The loop over \<open>k_extra\<close> for one cell: the pair \<open>(dp[i, b], choice[i - 1, b])\<close>.\<close>

definition dp_cell :: "real list \<Rightarrow> real list \<Rightarrow> int \<Rightarrow> int \<Rightarrow> real \<times> int" where
  "dp_cell prev vi max_extra b =
     foldl (inner_step prev vi b) (prev ! nat b, 0) [0..min b max_extra]"

text \<open>The loop over \<open>b\<close>: row \<open>i\<close> only reads row \<open>i - 1\<close>.\<close>

definition dp_row :: "real list \<Rightarrow> real list \<Rightarrow> int \<Rightarrow> int \<Rightarrow> (real \<times> int) list" where
  "dp_row prev vi B max_extra = map (dp_cell prev vi max_extra) [0..B]"

text \<open>The loop over the items: the rows of \<open>choice\<close>, first item first.\<close>

fun dp_table :: "real list \<Rightarrow> real list list \<Rightarrow> int \<Rightarrow> int \<Rightarrow> int list list" where
  "dp_table prev [] B max_extra = []"
| "dp_table prev (vi # vt) B max_extra =
     (let row = dp_row prev vi B max_extra
      in map snd row # dp_table (map fst row) vt B max_extra)"

text \<open>The rows of \<open>dp\<close> are only read while the table is built; the last one is kept here
  to speak about \<open>dp[M, B]\<close>.\<close>

fun dp_final :: "real list \<Rightarrow> real list list \<Rightarrow> int \<Rightarrow> int \<Rightarrow> real list" where
  "dp_final prev [] B max_extra = prev"
| "dp_final prev (vi # vt) B max_extra =
     dp_final (map fst (dp_row prev vi B max_extra)) vt B max_extra"

text \<open>
  Backtracking runs from the last item to the first: it takes the rows of \<open>choice\<close> last
  row first and returns the extras in that order.  The column \<open>b\<close> stays within
  \<open>0 .. B\<close> (each extra is at most \<open>b\<close>), so the reads are in range.
\<close>

fun backtrack :: "int list list \<Rightarrow> int \<Rightarrow> int list" where
  "backtrack [] b = []"
| "backtrack (row # rows) b =
     (let k_extra = row ! nat b;
          k_extra = (if k_extra < 0 then 0 else k_extra)
      in k_extra # backtrack rows (b - k_extra))"

definition knapsack_dp :: "real list \<Rightarrow> int \<Rightarrow> int \<Rightarrow> int \<Rightarrow> error + int list" where
  "knapsack_dp p total_budget n_low n_up =
     (let M = int (length p);
          base = replicate (length p) n_low;
          B = total_budget - sum_list base
      in if B < 0
         then (if M = 0 then Inl ZeroDivisionError
               else Inr (replicate (length p) (max 0 (total_budget div M))))
         else let vt = map (\<lambda>pi. value_table pi n_low n_up) p;
                  dp0 = (replicate (nat (B + 1)) NEG)[0 := 0];
                  choice = dp_table dp0 vt B (min B (n_up - n_low))
              in Inr (map2 (+) base (rev (backtrack (rev choice) B))))"

subsection \<open>The wrapper for extreme probabilities\<close>

definition eps :: real where
  "eps = 1 / 10 ^ 8"

text \<open>Boolean-mask indexing of NumPy: \<open>xs[mask]\<close>, \<open>xs[mask] = v\<close> and \<open>xs[mask] = vs\<close>.\<close>

definition masked_select :: "bool list \<Rightarrow> 'a list \<Rightarrow> 'a list" where
  "masked_select msk xs = map snd (filter fst (zip msk xs))"

definition masked_fill :: "bool list \<Rightarrow> 'a \<Rightarrow> 'a list \<Rightarrow> 'a list" where
  "masked_fill msk v xs = map2 (\<lambda>m x. if m then v else x) msk xs"

fun masked_assign :: "bool list \<Rightarrow> 'a list \<Rightarrow> 'a list \<Rightarrow> 'a list" where
  "masked_assign (True # msk) (v # vs) (x # xs) = v # masked_assign msk vs xs"
| "masked_assign (False # msk) vs (x # xs) = x # masked_assign msk vs xs"
| "masked_assign msk vs xs = xs"

definition any :: "bool list \<Rightarrow> bool" where
  "any msk = list_ex (\<lambda>m. m) msk"

definition clip :: "int \<Rightarrow> int \<Rightarrow> int \<Rightarrow> int" where
  "clip x lo hi = min (max x lo) hi"

text \<open>\<open>give[:] = remain // len(give)\<close> and \<open>give[: remain % len(give)] += 1\<close>; \<open>give\<close> is
  an \<open>int32\<close> array, read here as a list of integers (exact for shares below \<open>2^31\<close>).\<close>

definition even_split :: "int \<Rightarrow> nat \<Rightarrow> int list" where
  "even_split remain n =
     (let give = replicate n (remain div int n);
          r = nat (remain mod int n)
      in map (\<lambda>g. g + 1) (take r give) @ drop r give)"

text \<open>The final loop \<open>for i in range(M)\<close>, with its \<open>break\<close> once \<open>diff\<close> is zero
  (\<open>sg\<close> is the source's \<open>sgn\<close>).  In the source \<open>can\<close> and \<open>take\<close> are \<open>int32\<close> scalars;
  they are read here as integers, which is exact while \<open>n_up\<close> and \<open>diff\<close> are below
  \<open>2^31\<close>.\<close>

fun repair :: "int \<Rightarrow> int \<Rightarrow> int \<Rightarrow> int \<Rightarrow> int list \<Rightarrow> int list" where
  "repair sg diff n_low n_up [] = []"
| "repair sg diff n_low n_up (a # alloc) =
     (if diff = 0 then a # alloc
      else let can = (if sg > 0 then n_up - a else a - n_low);
               take = min can diff
           in (a + sg * take) # repair sg (diff - take) n_low n_up alloc)"

text \<open>
  The stages of \<open>allocate_with_extremes\<close> after the partition, in the order of the
  source: the cover of the easy keys, the scale-down return, the DP on the mid keys, the
  even split over the hard keys and the final repair.
\<close>

definition easy_stage :: "bool list \<Rightarrow> int \<Rightarrow> bool \<Rightarrow> int list \<Rightarrow> int list" where
  "easy_stage idx_easy n_low easy_min_cover alloc =
     (if easy_min_cover \<and> any idx_easy then masked_fill idx_easy n_low alloc else alloc)"

text \<open>
  \<open>np.floor(alloc.astype(float) * scale).astype(np.int32)\<close>, in exact arithmetic.  The code
  floors the \<open>float64\<close> product, which can lie just below the exact one
  (\<open>22.0 * (15 / 22)\<close> is \<open>14.999999999999998\<close>), so within the \<open>int32\<close> range the count the
  code returns is the count given here or one less.
\<close>

definition scale_down :: "int \<Rightarrow> int list \<Rightarrow> int list" where
  "scale_down total_budget alloc =
     (let scale = real_of_int total_budget / real_of_int (max 1 (sum_list alloc))
      in map (\<lambda>a. \<lfloor>real_of_int a * scale\<rfloor>) alloc)"

definition mid_stage :: "real list \<Rightarrow> bool list \<Rightarrow> int \<Rightarrow> int \<Rightarrow> int \<Rightarrow> int list \<Rightarrow> error + int list" where
  "mid_stage p idx_mid budget_mid n_low n_up alloc =
     (if any idx_mid
      then (case knapsack_dp (masked_select idx_mid p) budget_mid n_low n_up of
              Inl err \<Rightarrow> Inl err
            | Inr alloc_mid \<Rightarrow> Inr (masked_assign idx_mid alloc_mid alloc))
      else Inr alloc)"

definition hard_stage :: "bool list \<Rightarrow> int \<Rightarrow> int \<Rightarrow> int \<Rightarrow> int list \<Rightarrow> int list" where
  "hard_stage idx_hard total_budget n_low n_up alloc =
     (let used = sum_list alloc;
          remain = total_budget - used
      in if remain > 0 \<and> any idx_hard
         then let give = even_split remain (length (filter (\<lambda>m. m) idx_hard))
              in masked_assign idx_hard
                   (map (\<lambda>x. clip x n_low n_up) (map2 (+) (masked_select idx_hard alloc) give))
                   alloc
         else alloc)"

definition final_sanity :: "int \<Rightarrow> int \<Rightarrow> int \<Rightarrow> int list \<Rightarrow> int list" where
  "final_sanity total_budget n_low n_up alloc =
     (let diff = total_budget - sum_list alloc
      in if diff \<noteq> 0 \<and> length alloc > 0
         then repair (if diff > 0 then 1 else - 1) \<bar>diff\<bar> n_low n_up alloc
         else alloc)"

definition allocate_with_extremes ::
  "real list \<Rightarrow> int \<Rightarrow> int \<Rightarrow> int \<Rightarrow> real \<Rightarrow> bool \<Rightarrow> error + int list" where
  "allocate_with_extremes p total_budget n_low n_up hard_fallback_share easy_min_cover =
     (if \<not> total_budget \<ge> 0 then Inl AssertionError
      else if \<not> (1 \<le> n_low \<and> n_low \<le> n_up) then Inl AssertionError
      else
        let M = length p;
            alloc = replicate M (0 :: int);
            idx_hard = map (\<lambda>x. x \<le> eps) p;
            idx_easy = map (\<lambda>x. x \<ge> 1 - eps) p;
            idx_mid = map2 (\<lambda>h e. \<not> h \<and> \<not> e) idx_hard idx_easy;
            alloc = easy_stage idx_easy n_low easy_min_cover alloc;
            budget_mid = total_budget - sum_list alloc
        in if budget_mid < 0 then Inr (scale_down total_budget alloc)
           else (case mid_stage p idx_mid budget_mid n_low n_up alloc of
                   Inl err \<Rightarrow> Inl err
                 | Inr alloc \<Rightarrow>
                     Inr (final_sanity total_budget n_low n_up
                            (hard_stage idx_hard total_budget n_low n_up alloc))))"

subsection \<open>The objective, and the exhaustive search of the unit test\<close>

text \<open>The entry of \<open>_value_table\<close> for the count \<open>n\<close>, which is \<open>value(p, n)\<close>, and the
  objective \<open>sum_i value(p_i, N_i)\<close> that \<open>_total_value\<close> of the unit test computes.\<close>

definition "value" :: "real \<Rightarrow> int \<Rightarrow> real" where
  "value p n = prob_nonzero_grad n p * info_gain p"



subsection \<open>Vocabulary of the proofs\<close>

text \<open>A row of \<open>choice\<close> whose entry in column \<open>j\<close> lies between \<open>0\<close> and
  \<open>min j max_extra\<close>, for every column \<open>j\<close> of the table.\<close>

definition row_bounded :: "int \<Rightarrow> int \<Rightarrow> int list \<Rightarrow> bool" where
  "row_bounded mx B row \<longleftrightarrow> (\<forall>j. 0 \<le> j \<and> j \<le> B \<longrightarrow> 0 \<le> row ! nat j \<and> row ! nat j \<le> min j mx)"

text \<open>The increment \<open>inc\<close> of the inner loop as a function of the value table and the
  extra, and the sum of the increments of a vector of extras (the quantity the DP
  maximises).\<close>

definition extra_gain :: "real list \<Rightarrow> int \<Rightarrow> real" where
  "extra_gain vi k = (if k > 0 then vi ! nat k - vi ! 0 else 0)"


text \<open>A row of \<open>dp\<close>: \<open>B + 1\<close> cells, each the sentinel or a non-negative value.\<close>

definition row_ok :: "real list \<Rightarrow> int \<Rightarrow> bool" where
  "row_ok prev B \<longleftrightarrow>
     length prev = nat (B + 1) \<and> (\<forall>j. 0 \<le> j \<and> j \<le> B \<longrightarrow> prev ! nat j = NEG \<or> 0 \<le> prev ! nat j)"

text \<open>A value table none of whose first \<open>W\<close> extras is worth less than extra \<open>0\<close>.\<close>

definition mono_table :: "real list \<Rightarrow> int \<Rightarrow> bool" where
  "mono_table vi W \<longleftrightarrow> (\<forall>k. 0 < k \<and> k \<le> W \<longrightarrow> vi ! 0 \<le> vi ! nat k)"

section \<open>Estimator: auxiliary facts\<close>

lemma aggr_step_eq:
  "aggr_step acc (k, s) =
     AList.update k
       (if s > 0 then (fst (get_default acc k (0, 0)) + 1, snd (get_default acc k (0, 0)))
        else (fst (get_default acc k (0, 0)), snd (get_default acc k (0, 0)) + 1)) acc"
  by (simp add: Let_def split: prod.splits)

lemma aggr_fold_distinct:
  "distinct (map fst acc) \<Longrightarrow> distinct (map fst (foldl aggr_step acc xs))"
proof (induction xs arbitrary: acc)
  case Nil
  then show ?case by simp
next
  case (Cons x xs)
  obtain u s where x: "x = (u, s)" by (cases x)
  have "distinct (map fst (aggr_step acc (u, s)))"
    using Cons.prems unfolding aggr_step_eq by (simp add: distinct_update)
  then show ?case using Cons.IH x by simp
qed

lemma aggr_fold_lookup:
  "map_of (foldl aggr_step acc xs) u =
     (if u \<in> fst ` set xs \<or> u \<in> fst ` set acc
      then Some (fst (get_default acc u (0, 0)) + n_succ u xs,
                 snd (get_default acc u (0, 0)) + n_fail u xs)
      else None)"
proof (induction xs arbitrary: acc)
  case Nil
  have "u \<in> fst ` set acc \<longleftrightarrow> map_of acc u \<noteq> None"
    by (simp add: map_of_eq_None_iff)
  then show ?case
    by (cases "map_of acc u") (auto simp: get_default_def n_succ_def n_fail_def)
next
  case (Cons x xs)
  obtain k s where x: "x = (k, s)" by (cases x)
  let ?acc' = "aggr_step acc (k, s)"
  have dom': "fst ` set ?acc' = insert k (fst ` set acc)"
    unfolding aggr_step_eq using dom_update[of k _ acc]
    by (simp add: dom_map_of_conv_image_fst)
  have get': "get_default ?acc' u (0, 0) =
      (if u = k then (if s > 0 then (fst (get_default acc k (0, 0)) + 1, snd (get_default acc k (0, 0)))
                      else (fst (get_default acc k (0, 0)), snd (get_default acc k (0, 0)) + 1))
       else get_default acc u (0, 0))"
    unfolding aggr_step_eq by (simp add: get_default_def update_conv')
  show ?case
    unfolding x foldl_Cons Cons.IH[of ?acc'] dom' get'
    by (auto simp: n_succ_def n_fail_def)
qed

lemma ema_fold_lookup:
  "distinct (map fst al) \<Longrightarrow>
   foldl (ema_step e) store al u =
     (case map_of al u of
        None \<Rightarrow> store u
      | Some (a, b) \<Rightarrow>
          Some (e * fst (case store u of None \<Rightarrow> (0, 0) | Some x \<Rightarrow> x) + (1 - e) * real_of_int a,
                e * snd (case store u of None \<Rightarrow> (0, 0) | Some x \<Rightarrow> x) + (1 - e) * real_of_int b))"
proof (induction al arbitrary: store)
  case Nil
  then show ?case by simp
next
  case (Cons x al)
  obtain k a b where x: "x = (k, a, b)" by (cases x)
  have nk: "map_of al k = None"
    using Cons.prems x by (simp add: map_of_eq_None_iff)
  have d: "distinct (map fst al)" using Cons.prems by simp
  show ?case
    unfolding x foldl_Cons Cons.IH[OF d]
    using nk by (auto simp: Let_def split: prod.splits option.splits)
qed

lemma update_batch_store:
  assumes "length uids = length successes"
  shows "update_batch est uids successes =
     Inr (est\<lparr>succ_fail_ema := (\<lambda>u.
        if u \<in> set uids
        then Some (ema est * fst (counters est u)
                     + (1 - ema est) * real_of_int (n_succ u (zip uids successes)),
                   ema est * snd (counters est u)
                     + (1 - ema est) * real_of_int (n_fail u (zip uids successes)))
        else succ_fail_ema est u)\<rparr>)"
proof -
  let ?al = "aggregate uids successes"
  have d: "distinct (map fst ?al)"
    unfolding aggregate_def by (rule aggr_fold_distinct) simp
  have fsts: "fst ` set (zip uids successes) = set uids"
    using assms by (metis list.set_map map_fst_zip)
  have look: "map_of ?al u =
      (if u \<in> set uids
       then Some (n_succ u (zip uids successes), n_fail u (zip uids successes)) else None)" for u
    unfolding aggregate_def aggr_fold_lookup fsts by (simp add: get_default_def)
  have "foldl (ema_step (ema est)) (succ_fail_ema est) ?al u =
      (if u \<in> set uids
        then Some (ema est * fst (counters est u)
                     + (1 - ema est) * real_of_int (n_succ u (zip uids successes)),
                   ema est * snd (counters est u)
                     + (1 - ema est) * real_of_int (n_fail u (zip uids successes)))
        else succ_fail_ema est u)" for u
    unfolding ema_fold_lookup[OF d] look counters_def by simp
  then have "foldl (ema_step (ema est)) (succ_fail_ema est) ?al = (\<lambda>u.
        if u \<in> set uids
        then Some (ema est * fst (counters est u)
                     + (1 - ema est) * real_of_int (n_succ u (zip uids successes)),
                   ema est * snd (counters est u)
                     + (1 - ema est) * real_of_int (n_fail u (zip uids successes)))
        else succ_fail_ema est u)"
    by (rule ext)
  then show ?thesis using assms by (simp add: update_batch_def)
qed

lemma aggr_step_coerce:
  "aggr_step acc (u, if 0 < s then 1 else 0) = aggr_step acc (u, s)"
  unfolding aggr_step_eq by simp

lemma aggr_fold_coerce:
  "foldl aggr_step acc (zip uids (map (\<lambda>s. if 0 < s then 1 else 0) successes))
     = foldl aggr_step acc (zip uids successes)"
proof (induction uids arbitrary: acc successes)
  case Nil
  then show ?case by simp
next
  case (Cons u uids)
  show ?case
  proof (cases successes)
    case Nil
    then show ?thesis by simp
  next
    case (Cons s ss)
    then show ?thesis using Cons.IH aggr_step_coerce[of acc u s] by simp
  qed
qed

lemma run_batches_unseen:
  assumes "run_batches est0 batches = Inr est"
    and "\<forall>b \<in> set batches. u \<notin> set (fst b)"
  shows "succ_fail_ema est u = succ_fail_ema est0 u \<and> alpha est = alpha est0 \<and> beta est = beta est0"
  using assms
proof (induction batches arbitrary: est0)
  case Nil
  then show ?case by simp
next
  case (Cons b batches)
  obtain uids successes where b: "b = (uids, successes)" by (cases b)
  show ?case
  proof (cases "length uids = length successes")
    case False
    then show ?thesis using Cons.prems(1) b by (simp add: update_batch_def)
  next
    case True
    let ?est1 = "est0\<lparr>succ_fail_ema := (\<lambda>u.
        if u \<in> set uids
        then Some (ema est0 * fst (counters est0 u)
                     + (1 - ema est0) * real_of_int (n_succ u (zip uids successes)),
                   ema est0 * snd (counters est0 u)
                     + (1 - ema est0) * real_of_int (n_fail u (zip uids successes)))
        else succ_fail_ema est0 u)\<rparr>"
    have run: "run_batches ?est1 batches = Inr est"
      using Cons.prems(1) b update_batch_store[OF True, of est0] by simp
    have "u \<notin> set uids" using Cons.prems(2) b by simp
    then show ?thesis using Cons.IH[OF run] Cons.prems(2) by simp
  qed
qed

section \<open>Estimator: the claims\<close>

text \<open>
  Claim C7.  A call \<open>update_batch(keys, outcomes)\<close> with inputs of equal length returns
  normally, leaves \<open>ema\<close>, \<open>alpha\<close> and \<open>beta\<close> alone, and its effect on the store is
  one EMA step per key on the counts grouped within the call: a key with \<open>a\<close> successes
  and \<open>b\<close> failures in this call gets
  \<open>(decay * successEma + (1 - decay) * a, decay * failureEma + (1 - decay) * b)\<close>, where a
  key not seen before starts from \<open>(0, 0)\<close> (\<^const>\<open>counters\<close>), and a key that the call
  does not mention keeps its entry.
\<close>

theorem update_batch_grouped_ema:
  assumes "length uids = length successes"
  shows "\<exists>est'. update_batch est uids successes = Inr est'
     \<and> ema est' = ema est \<and> alpha est' = alpha est \<and> beta est' = beta est
     \<and> (\<forall>u. succ_fail_ema est' u =
          (if u \<in> set uids
           then Some (ema est * fst (counters est u)
                        + (1 - ema est) * real_of_int (n_succ u (zip uids successes)),
                      ema est * snd (counters est u)
                        + (1 - ema est) * real_of_int (n_fail u (zip uids successes)))
           else succ_fail_ema est u))"
  unfolding update_batch_store[OF assms] by simp

theorem update_batch_grouped_ema_witness:
  "length [''a'', ''b'', ''a''] = length [1, 0, 1 :: int]
   \<and> (\<exists>est'. update_batch \<lparr>ema = 1 / 2, alpha = 1, beta = 1, succ_fail_ema = [''b'' \<mapsto> (1, 3)]\<rparr>
               [''a'', ''b'', ''a''] [1, 0, 1] = Inr est'
        \<and> succ_fail_ema est' ''a'' = Some (1, 0)
        \<and> succ_fail_ema est' ''b'' = Some (1 / 2, 2)
        \<and> succ_fail_ema est' ''c'' = None)"
  using update_batch_grouped_ema
    [of "[''a'', ''b'', ''a'']" "[1, 0, 1]"
        "\<lparr>ema = 1 / 2, alpha = 1, beta = 1, succ_fail_ema = [''b'' \<mapsto> (1, 3)]\<rparr>"]
  by (auto simp: counters_def n_succ_def n_fail_def)

text \<open>
  Claim C8, as stated: for a key never observed, \<open>estimate\<close> returns exactly the prior
  mean \<open>alpha / (alpha + beta)\<close>.  It does not: the denominator carries the guard
  \<open>1e-9\<close>.  With the default prior \<open>alpha = beta = 1\<close> and an empty store the estimate
  of a key is \<open>1 / (2 + 1e-9)\<close>, not \<open>1 / 2\<close>.
\<close>

theorem estimate_unknown_counterexample:
  "estimate \<lparr>ema = 7 / 10, alpha = 1, beta = 1, succ_fail_ema = Map.empty\<rparr> [''q'']
     \<noteq> Inr [1 / (1 + 1)]"
  by (simp add: estimate_one_def)

text \<open>
  Claim C8, amended.  Start from a freshly constructed estimator and run any sequence of
  \<open>update_batch\<close> calls, none of which mentions the key \<open>u\<close>.  Then \<open>estimate\<close> on \<open>u\<close>
  returns \<open>alpha / (alpha + beta + 1e-9)\<close>: the prior mean with the guard \<open>1e-9\<close> in the
  denominator (and the division raises when that denominator is zero).
\<close>

theorem estimate_unknown_guarded_prior:
  assumes "init e a b = Inr est0"
    and "run_batches est0 batches = Inr est"
    and "\<forall>bt \<in> set batches. u \<notin> set (fst bt)"
  shows "estimate est [u] =
     (if a + b + 1 / 10 ^ 9 = 0 then Inl ZeroDivisionError
      else Inr [a / (a + b + 1 / 10 ^ 9)])"
proof -
  have est0: "est0 = \<lparr>ema = e, alpha = a, beta = b, succ_fail_ema = Map.empty\<rparr>"
    using assms(1) by (simp add: init_def split: if_splits)
  have "succ_fail_ema est u = None \<and> alpha est = a \<and> beta est = b"
    using run_batches_unseen[OF assms(2,3)] est0 by simp
  then show ?thesis by (simp add: estimate_one_def)
qed

theorem estimate_unknown_guarded_prior_witness:
  "init (7 / 10) 1 1 = Inr \<lparr>ema = 7 / 10, alpha = 1, beta = 1, succ_fail_ema = Map.empty\<rparr>
   \<and> (\<exists>est. run_batches \<lparr>ema = 7 / 10, alpha = 1, beta = 1, succ_fail_ema = Map.empty\<rparr>
               [([''a'', ''a''], [1, 0])] = Inr est
          \<and> estimate est [''q''] = Inr [1 / (2 + 1 / 10 ^ 9)])"
proof -
  let ?e0 = "\<lparr>ema = 7 / 10, alpha = 1, beta = 1, succ_fail_ema = Map.empty\<rparr>"
  have i: "init (7 / 10) 1 1 = Inr ?e0" by (simp add: init_def)
  obtain est where r: "run_batches ?e0 [([''a'', ''a''], [1, 0])] = Inr est"
    by (simp add: update_batch_def)
  have n: "\<forall>bt \<in> set [([''a'', ''a''], [1, 0 :: int])]. ''q'' \<notin> set (fst bt)" by simp
  have "estimate est [''q''] = Inr [1 / (2 + 1 / 10 ^ 9)]"
    using estimate_unknown_guarded_prior[OF i r n] by simp
  then show ?thesis using i r by blast
qed

text \<open>
  Claim C10.  With inputs of equal length \<open>update_batch\<close> raises nothing whatever the
  outcome values are, and an outcome counts as a success exactly when it is strictly
  positive: the call returns the same estimator as the call on the outcomes coerced to
  \<open>1\<close> (positive) or \<open>0\<close> (otherwise), and in the store it returns every key of the call
  has made one EMA step on the number of its positive outcomes (successes) and the
  number of its non-positive outcomes (failures), while every other key keeps its entry.
\<close>

theorem update_batch_coerces_outcomes:
  assumes "length uids = length successes"
  shows "\<exists>est'. update_batch est uids successes = Inr est'
     \<and> update_batch est uids (map (\<lambda>s. if 0 < s then 1 else 0) successes) = Inr est'
     \<and> (\<forall>u. succ_fail_ema est' u =
          (if u \<in> set uids
           then Some (ema est * fst (counters est u)
                        + (1 - ema est)
                          * real (length (filter (\<lambda>(k, s). k = u \<and> 0 < s) (zip uids successes))),
                      ema est * snd (counters est u)
                        + (1 - ema est)
                          * real (length (filter (\<lambda>(k, s). k = u \<and> s \<le> 0) (zip uids successes))))
           else succ_fail_ema est u))"
proof -
  have nf: "(\<lambda>(k, s). k = u \<and> \<not> 0 < s) = (\<lambda>(k, s :: int). k = u \<and> s \<le> 0)" for u :: string
    by (auto simp: fun_eq_iff)
  have co: "update_batch est uids (map (\<lambda>s. if 0 < s then 1 else 0) successes)
        = update_batch est uids successes"
    using assms by (simp add: update_batch_def aggregate_def aggr_fold_coerce)
  show ?thesis
    unfolding co update_batch_store[OF assms] by (simp add: n_succ_def n_fail_def nf)
qed

theorem update_batch_coerces_outcomes_witness:
  "length [''a'', ''a'', ''b''] = length [2, - 1, 0 :: int]
   \<and> (\<exists>est'. update_batch \<lparr>ema = 1 / 2, alpha = 1, beta = 1, succ_fail_ema = Map.empty\<rparr>
               [''a'', ''a'', ''b''] [2, - 1, 0] = Inr est'
        \<and> update_batch \<lparr>ema = 1 / 2, alpha = 1, beta = 1, succ_fail_ema = Map.empty\<rparr>
               [''a'', ''a'', ''b''] [1, 0, 0] = Inr est'
        \<and> succ_fail_ema est' ''a'' = Some (1 / 2, 1 / 2)
        \<and> succ_fail_ema est' ''b'' = Some (0, 1 / 2)
        \<and> succ_fail_ema est' ''c'' = None)"
  using update_batch_coerces_outcomes
    [of "[''a'', ''a'', ''b'']" "[2, - 1, 0]"
        "\<lparr>ema = 1 / 2, alpha = 1, beta = 1, succ_fail_ema = Map.empty\<rparr>"]
  by (auto simp: counters_def)

section \<open>Allocator: masks, sums and the repair loop\<close>

lemma length_masked_assign: "length (masked_assign msk vs xs) = length xs"
  by (induction msk vs xs rule: masked_assign.induct) simp_all

lemma masked_assign_weak:
  "\<forall>v\<in>set vs. P v \<Longrightarrow> \<forall>x\<in>set xs. P x \<Longrightarrow> \<forall>x\<in>set (masked_assign msk vs xs). P x"
  by (induction msk vs xs rule: masked_assign.induct) simp_all


lemma masked_select_all: "length xs = n \<Longrightarrow> masked_select (replicate n True) xs = xs"
  unfolding masked_select_def
  by (induction xs arbitrary: n) auto

lemma masked_assign_all:
  "length xs = n \<Longrightarrow> length vs = n \<Longrightarrow> masked_assign (replicate n True) vs xs = vs"
proof (induction xs arbitrary: n vs)
  case Nil
  then show ?case by simp
next
  case (Cons x xs)
  then obtain v vs' where "vs = v # vs'" by (cases vs) auto
  then show ?case using Cons by (cases n) auto
qed

lemma length_masked_select:
  "length msk = length xs \<Longrightarrow> length (masked_select msk xs) = length (filter (\<lambda>m. m) msk)"
  unfolding masked_select_def
  by (induction msk xs rule: list_induct2) auto

lemma any_filter: "any msk \<longleftrightarrow> 0 < length (filter (\<lambda>m. m) msk)"
  unfolding any_def by (induction msk) auto

lemma map_const_True: "\<forall>x\<in>set xs. f x \<Longrightarrow> map f xs = replicate (length xs) True"
  by (induction xs) auto

lemma map_const_False: "\<forall>x\<in>set xs. \<not> f x \<Longrightarrow> map f xs = replicate (length xs) False"
  by (induction xs) auto

lemma any_replicate_False: "\<not> any (replicate n False)"
  unfolding any_def by (induction n) auto

lemma any_replicate_True: "any (replicate n True) \<longleftrightarrow> 0 < n"
  unfolding any_def by (induction n) auto

lemma length_repair: "length (repair sg d lo hi xs) = length xs"
  by (induction xs arbitrary: d) (auto simp: Let_def)



lemma repair_fill:
  "\<forall>a\<in>set xs. a \<le> hi \<Longrightarrow> (\<Sum>a\<leftarrow>xs. hi - a) < d \<Longrightarrow>
     repair 1 d lo hi xs = replicate (length xs) hi"
proof (induction xs arbitrary: d)
  case Nil
  then show ?case by simp
next
  case (Cons a xs)
  have nn: "0 \<le> (\<Sum>a\<leftarrow>xs. hi - a)" using Cons.prems(1) by (auto intro!: sum_list_nonneg)
  then have d: "d \<noteq> 0" "min (hi - a) d = hi - a" using Cons.prems by auto
  have "(\<Sum>a\<leftarrow>xs. hi - a) < d - (hi - a)" using Cons.prems by simp
  then have "repair 1 (d - (hi - a)) lo hi xs = replicate (length xs) hi"
    using Cons.IH Cons.prems(1) by simp
  then show ?case using d by (simp add: Let_def)
qed


lemma sum_list_bounds:
  fixes xs :: "int list"
  shows "(\<Sum>a\<leftarrow>xs. hi - a) = int (length xs) * hi - sum_list xs"
    and "(\<Sum>a\<leftarrow>xs. a - lo) = sum_list xs - int (length xs) * lo"
  by (induction xs) (auto simp: algebra_simps)


section \<open>Allocator: shape of the DP result\<close>

lemma inner_fold_choice:
  "0 \<le> bk \<Longrightarrow> bk \<le> u \<Longrightarrow> \<forall>k\<in>set ks. 0 \<le> k \<and> k \<le> u \<Longrightarrow>
     0 \<le> snd (foldl (inner_step prev vi b) (best, bk) ks)
     \<and> snd (foldl (inner_step prev vi b) (best, bk) ks) \<le> u"
proof (induction ks arbitrary: best bk)
  case Nil
  then show ?case by simp
next
  case (Cons k ks)
  obtain best' bk' where st: "inner_step prev vi b (best, bk) k = (best', bk')"
    by (cases "inner_step prev vi b (best, bk) k")
  then have "bk' = bk \<or> bk' = k" by (auto simp: Let_def split: if_splits)
  then have "0 \<le> bk'" "bk' \<le> u" using Cons.prems by auto
  then show ?case using Cons.IH[of bk' best'] Cons.prems(3) st by simp
qed

lemma dp_cell_choice:
  "0 \<le> snd (dp_cell prev vi mx b) \<and> snd (dp_cell prev vi mx b) \<le> max 0 (min b mx)"
  unfolding dp_cell_def by (rule inner_fold_choice) auto

lemma length_dp_table: "length (dp_table prev vt B mx) = length vt"
  by (induction vt arbitrary: prev) (auto simp: Let_def)


lemma dp_row_nth:
  "0 \<le> j \<Longrightarrow> j \<le> B \<Longrightarrow> dp_row prev vi B mx ! nat j = dp_cell prev vi mx j"
  unfolding dp_row_def by (simp add: nth_upto)

lemma length_dp_row: "length (dp_row prev vi B mx) = nat (B + 1)"
  unfolding dp_row_def by simp

lemma dp_table_bounded:
  "0 \<le> mx \<Longrightarrow> \<forall>row\<in>set (dp_table prev vt B mx). row_bounded mx B row"
proof (induction vt arbitrary: prev)
  case Nil
  then show ?case by simp
next
  case (Cons vi vt)
  have "row_bounded mx B (map snd (dp_row prev vi B mx))"
    unfolding row_bounded_def
  proof (intro allI impI)
    fix j assume j: "0 \<le> j \<and> j \<le> B"
    then have "map snd (dp_row prev vi B mx) ! nat j = snd (dp_cell prev vi mx j)"
      by (simp add: dp_row_nth length_dp_row)
    then show "0 \<le> map snd (dp_row prev vi B mx) ! nat j
         \<and> map snd (dp_row prev vi B mx) ! nat j \<le> min j mx"
      using dp_cell_choice[of prev vi mx j] j Cons.prems by simp
  qed
  then show ?case using Cons by (simp add: Let_def)
qed

lemma backtrack_bounded:
  "\<forall>row\<in>set rows. row_bounded mx B row \<Longrightarrow> 0 \<le> b \<Longrightarrow> b \<le> B \<Longrightarrow>
     length (backtrack rows b) = length rows
     \<and> (\<forall>k\<in>set (backtrack rows b). 0 \<le> k \<and> k \<le> mx)
     \<and> sum_list (backtrack rows b) \<le> b"
proof (induction rows arbitrary: b)
  case Nil
  then show ?case by simp
next
  case (Cons row rows)
  let ?k = "row ! nat b"
  have k: "0 \<le> ?k" "?k \<le> b" "?k \<le> mx"
    using Cons.prems unfolding row_bounded_def by auto
  have "length (backtrack rows (b - ?k)) = length rows
     \<and> (\<forall>k\<in>set (backtrack rows (b - ?k)). 0 \<le> k \<and> k \<le> mx)
     \<and> sum_list (backtrack rows (b - ?k)) \<le> b - ?k"
    using Cons.IH[of "b - ?k"] Cons.prems k by simp
  then show ?case using k by (simp add: Let_def)
qed

lemma knapsack_dp_feasible_eq:
  assumes "int (length p) * n_low \<le> tb"
  shows "knapsack_dp p tb n_low n_up =
     Inr (map2 (+) (replicate (length p) n_low)
        (rev (backtrack (rev (dp_table ((replicate (nat (tb - int (length p) * n_low + 1)) NEG)[0 := 0])
                (map (\<lambda>pi. value_table pi n_low n_up) p) (tb - int (length p) * n_low)
                (min (tb - int (length p) * n_low) (n_up - n_low))))
           (tb - int (length p) * n_low))))"
proof -
  have s: "sum_list (replicate (length p) n_low) = int (length p) * n_low"
    by (simp add: sum_list_replicate)
  have nb: "\<not> tb - int (length p) * n_low < 0" using assms by simp
  show ?thesis unfolding knapsack_dp_def Let_def s if_not_P[OF nb] ..
qed

lemma set_map2_replicate:
  "length es = n \<Longrightarrow> set (map2 (+) (replicate n (c::int)) es) = (\<lambda>e. c + e) ` set es"
proof (induction es arbitrary: n)
  case Nil
  then show ?case by simp
next
  case (Cons e es)
  then obtain m where "n = Suc m" by (cases n) auto
  then show ?case using Cons by auto
qed

lemma knapsack_dp_feasible_bounds:
  assumes "n_low \<le> n_up" "int (length p) * n_low \<le> tb"
  shows "\<exists>v. knapsack_dp p tb n_low n_up = Inr v \<and> length v = length p
            \<and> (\<forall>x\<in>set v. n_low \<le> x \<and> x \<le> n_up)"
proof -
  define B where "B = tb - int (length p) * n_low"
  define mx where "mx = min B (n_up - n_low)"
  define rows where "rows = rev (dp_table ((replicate (nat (B + 1)) NEG)[0 := 0])
                (map (\<lambda>pi. value_table pi n_low n_up) p) B mx)"
  define es where "es = rev (backtrack rows B)"
  have B: "0 \<le> B" and mx: "0 \<le> mx" "mx \<le> n_up - n_low"
    using assms by (auto simp: B_def mx_def)
  have rb: "\<forall>row\<in>set rows. row_bounded mx B row"
    using dp_table_bounded[OF mx(1)] by (simp add: rows_def)
  have bt: "length (backtrack rows B) = length rows
     \<and> (\<forall>k\<in>set (backtrack rows B). 0 \<le> k \<and> k \<le> mx)
     \<and> sum_list (backtrack rows B) \<le> B"
    by (rule backtrack_bounded[OF rb B]) simp
  have len: "length es = length p"
    using bt by (simp add: es_def rows_def length_dp_table)
  have eq: "knapsack_dp p tb n_low n_up = Inr (map2 (+) (replicate (length p) n_low) es)"
    unfolding knapsack_dp_feasible_eq[OF assms(2)] es_def rows_def mx_def B_def ..
  have "\<forall>x\<in>set (map2 (+) (replicate (length p) n_low) es). n_low \<le> x \<and> x \<le> n_up"
    unfolding set_map2_replicate[OF len] using bt mx by (auto simp: es_def)
  then show ?thesis using eq len by simp
qed

lemma knapsack_dp_infeasible:
  assumes "p \<noteq> []" "tb < int (length p) * n_low"
  shows "knapsack_dp p tb n_low n_up = Inr (replicate (length p) (max 0 (tb div int (length p))))"
proof -
  have s: "sum_list (replicate (length p) n_low) = int (length p) * n_low"
    by (simp add: sum_list_replicate)
  have nb: "tb - int (length p) * n_low < 0" using assms by simp
  have m: "int (length p) \<noteq> 0" using assms by simp
  show ?thesis unfolding knapsack_dp_def Let_def s if_P[OF nb] if_not_P[OF m] ..
qed

lemma div_less_bound:
  fixes tb :: int
  assumes "0 < L" "tb < L * n"
  shows "tb div L < n"
proof (rule ccontr)
  assume "\<not> tb div L < n"
  then have "n * L \<le> (tb div L) * L"
    using assms(1) by (simp add: mult_right_mono)
  also have "\<dots> \<le> tb"
    using pos_mod_sign[OF assms(1), of tb] div_mult_mod_eq[of tb L] by linarith
  finally show False using assms(2) by (simp add: mult.commute)
qed

lemma knapsack_dp_total:
  assumes "p \<noteq> []" "0 \<le> n_low" "n_low \<le> n_up"
  shows "\<exists>v. knapsack_dp p tb n_low n_up = Inr v \<and> length v = length p
            \<and> (\<forall>x\<in>set v. 0 \<le> x \<and> x \<le> n_up)"
proof (cases "int (length p) * n_low \<le> tb")
  case True
  obtain v where v: "knapsack_dp p tb n_low n_up = Inr v" "length v = length p"
      "\<forall>x\<in>set v. n_low \<le> x \<and> x \<le> n_up"
    using knapsack_dp_feasible_bounds[OF assms(3) True] by blast
  have "\<forall>x\<in>set v. 0 \<le> x \<and> x \<le> n_up" using v(3) assms(2) by force
  then show ?thesis using v by simp
next
  case False
  then have lt: "tb < int (length p) * n_low" by simp
  have pos: "0 < int (length p)" using assms(1) by simp
  have "tb div int (length p) < n_low" by (rule div_less_bound[OF pos lt])
  then have "\<forall>x\<in>set (replicate (length p) (max 0 (tb div int (length p)))). 0 \<le> x \<and> x \<le> n_up"
    using assms by auto
  then show ?thesis unfolding knapsack_dp_infeasible[OF assms(1) lt] by simp
qed

section \<open>Allocator: the stages of the wrapper\<close>

lemma map2_same: "map2 f (map g xs) (map h xs) = map (\<lambda>x. f (g x) (h x)) xs"
  by (induction xs) auto

lemma masked_fill_zeros:
  "masked_fill (map f xs) c (replicate (length xs) 0) = map (\<lambda>x. if f x then c else 0) xs"
  unfolding masked_fill_def by (induction xs) auto

lemma not_any_map: "\<not> any (map f xs) \<Longrightarrow> x \<in> set xs \<Longrightarrow> \<not> f x"
  unfolding any_def by (induction xs) auto

lemma any_map_iff: "any (map f xs) \<longleftrightarrow> (\<exists>x\<in>set xs. f x)"
  unfolding any_def by (induction xs) auto


lemma easy_stage_bounds:
  assumes "0 \<le> c"
  shows "length (easy_stage (map f xs) c emc (replicate (length xs) 0)) = length xs"
    and "\<forall>a\<in>set (easy_stage (map f xs) c emc (replicate (length xs) 0)). 0 \<le> a \<and> a \<le> c"
  using assms by (auto simp: easy_stage_def masked_fill_zeros)

lemma sum_list_le_const:
  fixes xs :: "int list"
  assumes "\<forall>a\<in>set xs. a \<le> c"
  shows "sum_list xs \<le> int (length xs) * c"
proof -
  have "0 \<le> (\<Sum>a\<leftarrow>xs. c - a)" using assms by (auto intro!: sum_list_nonneg)
  then show ?thesis by (simp add: sum_list_bounds)
qed

lemma sum_list_ge_const:
  fixes xs :: "int list"
  assumes "\<forall>a\<in>set xs. c \<le> a"
  shows "int (length xs) * c \<le> sum_list xs"
proof -
  have "0 \<le> (\<Sum>a\<leftarrow>xs. a - c)" using assms by (auto intro!: sum_list_nonneg)
  then show ?thesis by (simp add: sum_list_bounds)
qed

lemma allocate_unfold:
  assumes "0 \<le> tb" "1 \<le> n_low" "n_low \<le> n_up"
  shows "allocate_with_extremes p tb n_low n_up h emc =
    (if tb - sum_list (easy_stage (map (\<lambda>x. x \<ge> 1 - eps) p) n_low emc (replicate (length p) 0)) < 0
     then Inr (scale_down tb (easy_stage (map (\<lambda>x. x \<ge> 1 - eps) p) n_low emc (replicate (length p) 0)))
     else (case mid_stage p (map (\<lambda>x. \<not> x \<le> eps \<and> \<not> x \<ge> 1 - eps) p)
                 (tb - sum_list (easy_stage (map (\<lambda>x. x \<ge> 1 - eps) p) n_low emc (replicate (length p) 0)))
                 n_low n_up
                 (easy_stage (map (\<lambda>x. x \<ge> 1 - eps) p) n_low emc (replicate (length p) 0)) of
             Inl err \<Rightarrow> Inl err
           | Inr a \<Rightarrow> Inr (final_sanity tb n_low n_up
                             (hard_stage (map (\<lambda>x. x \<le> eps) p) tb n_low n_up a))))"
proof -
  have n1: "\<not> \<not> tb \<ge> 0" using assms by simp
  have n2: "\<not> \<not> (1 \<le> n_low \<and> n_low \<le> n_up)" using assms by simp
  show ?thesis
    unfolding allocate_with_extremes_def Let_def map2_same if_not_P[OF n1] if_not_P[OF n2] ..
qed

lemma masked_select_nonempty:
  "any (map f xs) \<Longrightarrow> masked_select (map f xs) xs \<noteq> []"
  unfolding any_def masked_select_def by (induction xs) auto



lemma mid_stage_total:
  assumes "0 \<le> n_low" "n_low \<le> n_up" "length alloc = length p"
    and "\<forall>a\<in>set alloc. 0 \<le> a \<and> a \<le> n_up"
  shows "\<exists>a2. mid_stage p (map f p) bm n_low n_up alloc = Inr a2 \<and> length a2 = length p
           \<and> (\<forall>a\<in>set a2. 0 \<le> a \<and> a \<le> n_up)"
proof (cases "any (map f p)")
  case False
  then show ?thesis using assms by (simp add: mid_stage_def)
next
  case True
  have ne: "masked_select (map f p) p \<noteq> []" by (rule masked_select_nonempty[OF True])
  obtain v where v: "knapsack_dp (masked_select (map f p) p) bm n_low n_up = Inr v"
      "\<forall>x\<in>set v. 0 \<le> x \<and> x \<le> n_up"
    using knapsack_dp_total[OF ne assms(1,2)] by blast
  have "\<forall>x\<in>set (masked_assign (map f p) v alloc). 0 \<le> x \<and> x \<le> n_up"
    by (rule masked_assign_weak[OF v(2) assms(4)])
  then show ?thesis using True v(1) assms(3) by (simp add: mid_stage_def length_masked_assign)
qed

lemma hard_stage_weak:
  assumes "n_low \<le> n_up" "\<forall>a\<in>set alloc. a \<le> n_up"
  shows "length (hard_stage idx tb n_low n_up alloc) = length alloc"
    and "\<forall>a\<in>set (hard_stage idx tb n_low n_up alloc). a \<le> n_up"
proof -
  show "length (hard_stage idx tb n_low n_up alloc) = length alloc"
    by (simp add: hard_stage_def Let_def length_masked_assign)
  have c: "\<forall>v\<in>set (map (\<lambda>x. clip x n_low n_up) ys). v \<le> n_up" for ys
    by (simp add: clip_def)
  show "\<forall>a\<in>set (hard_stage idx tb n_low n_up alloc). a \<le> n_up"
  proof (cases "tb - sum_list alloc > 0 \<and> any idx")
    case True
    have eq: "hard_stage idx tb n_low n_up alloc =
       masked_assign idx (map (\<lambda>x. clip x n_low n_up)
          (map2 (+) (masked_select idx alloc)
             (even_split (tb - sum_list alloc) (length (filter (\<lambda>m. m) idx))))) alloc"
      unfolding hard_stage_def Let_def if_P[OF True] ..
    show ?thesis unfolding eq by (rule masked_assign_weak[OF c assms(2)])
  next
    case False
    have "hard_stage idx tb n_low n_up alloc = alloc"
      unfolding hard_stage_def Let_def if_not_P[OF False] ..
    then show ?thesis using assms(2) by simp
  qed
qed

lemma allocate_cases:
  assumes "0 \<le> tb" "1 \<le> n_low" "n_low \<le> n_up"
  shows "(tb < sum_list (easy_stage (map (\<lambda>x. x \<ge> 1 - eps) p) n_low emc (replicate (length p) 0))
          \<and> allocate_with_extremes p tb n_low n_up h emc =
              Inr (scale_down tb (easy_stage (map (\<lambda>x. x \<ge> 1 - eps) p) n_low emc (replicate (length p) 0))))
       \<or> (\<exists>a3. allocate_with_extremes p tb n_low n_up h emc = Inr (final_sanity tb n_low n_up a3)
              \<and> length a3 = length p \<and> (\<forall>a\<in>set a3. a \<le> n_up))"
proof -
  define a1 where "a1 = easy_stage (map (\<lambda>x. x \<ge> 1 - eps) p) n_low emc (replicate (length p) 0)"
  have nl: "0 \<le> n_low" using assms(2) by simp
  have a1: "length a1 = length p" "\<forall>a\<in>set a1. 0 \<le> a \<and> a \<le> n_low"
    unfolding a1_def by (rule easy_stage_bounds[OF nl])+
  have a1': "\<forall>a\<in>set a1. 0 \<le> a \<and> a \<le> n_up" using a1(2) assms(3) by force
  show ?thesis
  proof (cases "tb < sum_list a1")
    case True
    then have "tb - sum_list a1 < 0" by simp
    then have "allocate_with_extremes p tb n_low n_up h emc = Inr (scale_down tb a1)"
      unfolding allocate_unfold[OF assms] a1_def[symmetric] by (rule if_P)
    then show ?thesis using True unfolding a1_def by blast
  next
    case False
    then have nb: "\<not> tb - sum_list a1 < 0" by simp
    obtain a2 where a2: "mid_stage p (map (\<lambda>x. \<not> x \<le> eps \<and> \<not> x \<ge> 1 - eps) p) (tb - sum_list a1) n_low n_up a1 = Inr a2"
        "length a2 = length p" "\<forall>a\<in>set a2. 0 \<le> a \<and> a \<le> n_up"
      using mid_stage_total[OF nl assms(3) a1(1) a1'] by blast
    have le: "\<forall>a\<in>set a2. a \<le> n_up" using a2(3) by simp
    let ?a3 = "hard_stage (map (\<lambda>x. x \<le> eps) p) tb n_low n_up a2"
    have "allocate_with_extremes p tb n_low n_up h emc = Inr (final_sanity tb n_low n_up ?a3)"
      unfolding allocate_unfold[OF assms] a1_def[symmetric] if_not_P[OF nb] a2(1) by simp
    moreover have "length ?a3 = length p" "\<forall>a\<in>set ?a3. a \<le> n_up"
      using hard_stage_weak[OF assms(3) le] a2(2) by simp_all
    ultimately show ?thesis by blast
  qed
qed

lemma length_final_sanity: "length (final_sanity tb lo hi xs) = length xs"
  by (simp add: final_sanity_def Let_def length_repair)

lemma length_scale_down: "length (scale_down tb xs) = length xs"
  by (simp add: scale_down_def Let_def)

lemma allocate_no_raise:
  assumes "0 \<le> tb" "1 \<le> n_low" "n_low \<le> n_up"
  shows "\<exists>v. allocate_with_extremes p tb n_low n_up h emc = Inr v \<and> length v = length p"
proof -
  have nl: "0 \<le> n_low" using assms(2) by simp
  have l1: "length (easy_stage (map (\<lambda>x. x \<ge> 1 - eps) p) n_low emc (replicate (length p) 0)) = length p"
    by (rule easy_stage_bounds(1)[OF nl])
  from allocate_cases[OF assms, of p emc h] show ?thesis
  proof (elim disjE conjE exE)
    assume "allocate_with_extremes p tb n_low n_up h emc =
              Inr (scale_down tb (easy_stage (map (\<lambda>x. x \<ge> 1 - eps) p) n_low emc (replicate (length p) 0)))"
    then show ?thesis using l1 by (simp add: length_scale_down)
  next
    fix a3 assume "allocate_with_extremes p tb n_low n_up h emc = Inr (final_sanity tb n_low n_up a3)"
      "length a3 = length p"
    then show ?thesis by (simp add: length_final_sanity)
  qed
qed

lemma final_sanity_fill:
  assumes "\<forall>a\<in>set xs. a \<le> hi" "int (length xs) * hi < tb"
  shows "final_sanity tb lo hi xs = replicate (length xs) hi"
proof (cases xs)
  case Nil
  then show ?thesis by (simp add: final_sanity_def Let_def)
next
  case (Cons a list)
  have s: "sum_list xs \<le> int (length xs) * hi" by (rule sum_list_le_const[OF assms(1)])
  then have d: "0 < tb - sum_list xs" using assms(2) by simp
  have "(\<Sum>a\<leftarrow>xs. hi - a) < \<bar>tb - sum_list xs\<bar>"
    using assms(2) d by (simp add: sum_list_bounds)
  then have "repair 1 \<bar>tb - sum_list xs\<bar> lo hi xs = replicate (length xs) hi"
    by (rule repair_fill[OF assms(1)])
  then show ?thesis using d Cons by (simp add: final_sanity_def Let_def)
qed

section \<open>Allocator: claims on the wrapper\<close>

lemma eps_small: "eps < 1 - eps"
  by (simp add: eps_def)

lemma mid_stage_none:
  "\<forall>x\<in>set p. \<not> f x \<Longrightarrow> mid_stage p (map f p) bm n_low n_up alloc = Inr alloc"
  by (simp add: mid_stage_def any_map_iff)


text \<open>
  Claim C4, amended.  Take a call that passes the two assertions and stays within the
  \<open>int32\<close> range of the arrays (\<open>total_budget < 2^31 - 1\<close> and \<open>M * n_up < 2^31 - 1\<close>, where
  the integer reading of the arrays is exact).  The repair is the loop \<^const>\<open>repair\<close>
  over the \<open>M\<close> entries, so it is bounded, but no error is raised: the function returns a
  vector of length \<open>M\<close>.  When \<open>total_budget\<close> exceeds \<open>n_up * M\<close> (which includes \<open>M = 0\<close>
  with a positive budget) the returned vector has every entry \<open>n_up\<close>, and its sum
  \<open>n_up * M\<close> is below \<open>total_budget\<close>.
\<close>

theorem allocate_beyond_capacity:
  assumes "0 \<le> tb" "1 \<le> n_low" "n_low \<le> n_up"
    and "tb < 2 ^ 31 - 1" "int (length p) * n_up < 2 ^ 31 - 1"
  shows "(\<exists>v. allocate_with_extremes p tb n_low n_up h emc = Inr v \<and> length v = length p)
     \<and> (int (length p) * n_up < tb \<longrightarrow>
          allocate_with_extremes p tb n_low n_up h emc = Inr (replicate (length p) n_up)
          \<and> sum_list (replicate (length p) n_up) < tb)"
proof (intro conjI impI)
  show "\<exists>v. allocate_with_extremes p tb n_low n_up h emc = Inr v \<and> length v = length p"
    by (rule allocate_no_raise[OF assms(1-3)])
next
  assume big: "int (length p) * n_up < tb"
  then show "sum_list (replicate (length p) n_up) < tb" by (simp add: sum_list_replicate)
  have nl: "0 \<le> n_low" using assms(2) by simp
  let ?a1 = "easy_stage (map (\<lambda>x. x \<ge> 1 - eps) p) n_low emc (replicate (length p) 0)"
  have "\<forall>a\<in>set ?a1. a \<le> n_low" using easy_stage_bounds(2)[OF nl, of "\<lambda>x. x \<ge> 1 - eps" p emc] by simp
  then have "sum_list ?a1 \<le> int (length ?a1) * n_low" by (rule sum_list_le_const)
  also have "\<dots> = int (length p) * n_low" by (simp add: easy_stage_bounds(1)[OF nl])
  also have "\<dots> \<le> int (length p) * n_up" using assms(3) by (simp add: mult_left_mono)
  finally have noscale: "\<not> tb < sum_list ?a1" using big by simp
  from allocate_cases[OF assms(1-3), of p emc h] noscale
  obtain a3 where a3: "allocate_with_extremes p tb n_low n_up h emc = Inr (final_sanity tb n_low n_up a3)"
      "length a3 = length p" "\<forall>a\<in>set a3. a \<le> n_up"
    by blast
  have "int (length a3) * n_up < tb" using big a3(2) by simp
  then have "final_sanity tb n_low n_up a3 = replicate (length a3) n_up"
    by (rule final_sanity_fill[OF a3(3)])
  then show "allocate_with_extremes p tb n_low n_up h emc = Inr (replicate (length p) n_up)"
    using a3 by simp
qed

theorem allocate_beyond_capacity_witness:
  "(0::int) \<le> 5 \<and> (1::int) \<le> 1 \<and> (1::int) \<le> 2 \<and> (5::int) < 2 ^ 31 - 1
   \<and> int (length [1 / 2 :: real]) * 2 < 2 ^ 31 - 1 \<and> int (length [1 / 2 :: real]) * 2 < 5
   \<and> allocate_with_extremes [1 / 2] 5 1 2 1 True = Inr [2]"
  using allocate_beyond_capacity[of 5 1 2 "[1 / 2]" 1 True] by simp

text \<open>
  Claim C4, as stated: when the repair cannot restore the sum, an internal error is
  surfaced.  One mid key, bounds \<open>[1, 2]\<close> and budget \<open>5\<close>: the call returns \<open>[2]\<close>,
  whose sum is not \<open>5\<close>.
\<close>

theorem allocate_beyond_capacity_counterexample:
  "allocate_with_extremes [1 / 2] 5 1 2 1 True = Inr [2] \<and> sum_list [2] \<noteq> (5 :: int)"
  by code_simp















lemma even_split_sum:
  assumes "0 < n"
  shows "sum_list (even_split r n) = r"
proof -
  let ?q = "r div int n" and ?k = "nat (r mod int n)"
  have k: "?k < n" using assms by (simp add: nat_less_iff)
  have ik: "int ?k = r mod int n" using assms by simp
  have "sum_list (even_split r n) = int ?k * (?q + 1) + int (n - ?k) * ?q"
    using k by (simp add: even_split_def Let_def sum_list_replicate min_def)
  also have "\<dots> = int n * ?q + int ?k"
    using k by (simp add: algebra_simps)
  also have "\<dots> = r" unfolding ik by simp
  finally show ?thesis .
qed

lemma even_split_nth:
  assumes "0 < n"
  shows "even_split r n = map (\<lambda>i. r div int n + (if int i < r mod int n then 1 else 0)) [0..<n]"
proof (rule nth_equalityI)
  have k: "nat (r mod int n) < n" using assms by (simp add: nat_less_iff)
  show l: "length (even_split r n) = length (map (\<lambda>i. r div int n + (if int i < r mod int n then 1 else 0)) [0..<n])"
    using k by (simp add: even_split_def Let_def min_def)
  fix i assume "i < length (even_split r n)"
  then have i: "i < n" using l by simp
  have iff: "int i < r mod int n \<longleftrightarrow> i < nat (r mod int n)" using assms by (simp add: zless_nat_eq_int_zless)
  show "even_split r n ! i = map (\<lambda>i. r div int n + (if int i < r mod int n then 1 else 0)) [0..<n] ! i"
    using i k iff by (simp add: even_split_def Let_def nth_append min_def)
qed

lemma split_bounds:
  fixes t :: int
  assumes "0 < L" "L * lo \<le> t" "t \<le> L * hi"
  shows "lo \<le> t div L" and "t div L \<le> hi" and "0 < t mod L \<Longrightarrow> t div L + 1 \<le> hi"
proof -
  have e: "t = L * (t div L) + t mod L" by simp
  have m: "0 \<le> t mod L" "t mod L < L" using assms(1) by simp_all
  show "lo \<le> t div L"
  proof (rule ccontr)
    assume "\<not> lo \<le> t div L"
    then have "t div L + 1 \<le> lo" by simp
    then have "L * (t div L + 1) \<le> L * lo" using assms(1) by (simp add: mult_left_mono)
    then show False using e m assms(2) by (simp add: algebra_simps)
  qed
  have le: "L * (t div L) \<le> t" using e m by linarith
  show "t div L \<le> hi"
  proof (rule ccontr)
    assume "\<not> t div L \<le> hi"
    then have "hi + 1 \<le> t div L" by simp
    then have "L * (hi + 1) \<le> L * (t div L)" using assms(1) by (simp add: mult_left_mono)
    then show False using le assms(1,3) by (simp add: algebra_simps)
  qed
  show "t div L + 1 \<le> hi" if "0 < t mod L"
  proof (rule ccontr)
    assume "\<not> t div L + 1 \<le> hi"
    then have "hi \<le> t div L" by simp
    then have "L * hi \<le> L * (t div L)" using assms(1) by (simp add: mult_left_mono)
    moreover have "L * (t div L) < t" using e that by linarith
    ultimately show False using assms(3) by simp
  qed
qed

lemma easy_stage_no_easy:
  "\<forall>x\<in>set p. \<not> f x \<Longrightarrow> easy_stage (map f p) c emc alloc = alloc"
  by (simp add: easy_stage_def any_map_iff)

lemma map2_add_zeros: "length ys = n \<Longrightarrow> map2 (+) (replicate n (0::int)) ys = ys"
proof (induction ys arbitrary: n)
  case Nil
  then show ?case by simp
next
  case (Cons y ys)
  then obtain m where "n = Suc m" by (cases n) auto
  then show ?case using Cons by auto
qed

lemma map_clip_id:
  "\<forall>a\<in>set xs. lo \<le> a \<and> a \<le> hi \<Longrightarrow> map (\<lambda>x. clip x lo hi) xs = xs"
  by (induction xs) (simp_all add: clip_def)

lemma length_even_split: "0 < n \<Longrightarrow> length (even_split r n) = n"
  by (simp add: even_split_nth)

lemma hard_stage_all_hard:
  assumes "\<forall>x\<in>set p. f x" "p \<noteq> []" "0 < tb"
    and "\<forall>a\<in>set (even_split tb (length p)). n_low \<le> a \<and> a \<le> n_up"
  shows "hard_stage (map f p) tb n_low n_up (replicate (length p) 0) = even_split tb (length p)"
proof -
  have n: "0 < length p" using assms(2) by simp
  have idx: "map f p = replicate (length p) True" by (rule map_const_True[OF assms(1)])
  have c: "0 < tb \<and> any (replicate (length p) True)"
    using assms(3) n by (simp add: any_replicate_True)
  have cnt: "length (filter (\<lambda>m. m) (replicate (length p) True)) = length p" by simp
  have s0: "tb - sum_list (replicate (length p) (0::int)) = tb" by (simp add: sum_list_replicate)
  have sel: "masked_select (replicate (length p) True) (replicate (length p) (0::int)) = replicate (length p) 0"
    by (rule masked_select_all) simp
  have len: "length (even_split tb (length p)) = length p" by (rule length_even_split[OF n])
  show ?thesis
    unfolding hard_stage_def Let_def idx s0 if_P[OF c] cnt sel map2_add_zeros[OF len] map_clip_id[OF assms(4)]
    by (rule masked_assign_all) (simp_all add: len)
qed

text \<open>
  Claim C6, amended.  When every probability is at most \<open>eps\<close>, the budget is feasible,
  \<open>M * n_low \<le> total_budget \<le> M * n_up\<close>, and \<open>M * n_up < 2^31 - 1\<close> (so that the split fits
  the \<open>int32\<close> array \<open>give\<close>), the result is the even split: key \<open>i\<close> gets
  \<open>total_budget div M\<close>, plus one for the first \<open>total_budget mod M\<close> keys, and every entry
  lies within \<open>[n_low, n_up]\<close>.
\<close>

theorem allocate_all_hard:
  assumes "0 \<le> tb" "1 \<le> n_low" "n_low \<le> n_up" "\<forall>x\<in>set p. x \<le> eps"
    and "int (length p) * n_low \<le> tb" "tb \<le> int (length p) * n_up"
    and "int (length p) * n_up < 2 ^ 31 - 1"
  shows "allocate_with_extremes p tb n_low n_up h emc =
           Inr (map (\<lambda>i. tb div int (length p) + (if int i < tb mod int (length p) then 1 else 0))
                    [0..<length p])
       \<and> (\<forall>a\<in>set (map (\<lambda>i. tb div int (length p) + (if int i < tb mod int (length p) then 1 else 0))
                        [0..<length p]). n_low \<le> a \<and> a \<le> n_up)"
proof (cases "p = []")
  case True
  then have "tb = 0" using assms(1,6) by simp
  then have "final_sanity tb n_low n_up [] = []" by (simp add: final_sanity_def)
  then show ?thesis
    unfolding allocate_unfold[OF assms(1-3)] using True \<open>tb = 0\<close>
    by (simp add: easy_stage_def any_def mid_stage_def hard_stage_def)
next
  case False
  then have n: "0 < length p" and L: "0 < int (length p)" by simp_all
  have ne: "\<forall>x\<in>set p. \<not> x \<ge> 1 - eps" using assms(4) eps_small by force
  have nm: "\<forall>x\<in>set p. \<not> (\<not> x \<le> eps \<and> \<not> x \<ge> 1 - eps)" using assms(4) by simp
  have tbpos: "0 < tb"
  proof -
    have "1 \<le> int (length p) * n_low" using L assms(2) by (simp add: mult_le_0_iff not_le[symmetric] zero_less_mult_iff less_le_trans int_one_le_iff_zero_less)
    then show ?thesis using assms(5) by simp
  qed
  have b: "\<forall>a\<in>set (even_split tb (length p)). n_low \<le> a \<and> a \<le> n_up"
    unfolding even_split_nth[OF n]
    using split_bounds[OF L assms(5,6)] by auto
  have hs: "hard_stage (map (\<lambda>x. x \<le> eps) p) tb n_low n_up (replicate (length p) 0)
        = even_split tb (length p)"
    by (rule hard_stage_all_hard[OF assms(4) False tbpos b])
  have s0: "\<not> tb - sum_list (replicate (length p) (0::int)) < 0"
    using assms(1) by (simp add: sum_list_replicate)
  have fs: "final_sanity tb n_low n_up (even_split tb (length p)) = even_split tb (length p)"
    by (simp add: final_sanity_def even_split_sum[OF n])
  have "allocate_with_extremes p tb n_low n_up h emc = Inr (even_split tb (length p))"
    unfolding allocate_unfold[OF assms(1-3)] easy_stage_no_easy[OF ne] if_not_P[OF s0]
      mid_stage_none[OF nm]
    by (simp add: hs fs)
  then show ?thesis using b unfolding even_split_nth[OF n] by simp
qed

theorem allocate_all_hard_witness:
  "(0::int) \<le> 7 \<and> (1::int) \<le> 1 \<and> (1::int) \<le> 3 \<and> 0 \<le> eps
   \<and> int (length [0, 0, 0 :: real]) * 1 \<le> 7 \<and> 7 \<le> int (length [0, 0, 0 :: real]) * 3
   \<and> int (length [0, 0, 0 :: real]) * 3 < 2 ^ 31 - 1
   \<and> allocate_with_extremes [0, 0, 0] 7 1 3 1 True = Inr [3, 2, 2]"
proof -
  have e: "\<forall>x\<in>set [0, 0, 0 :: real]. x \<le> eps" by (simp add: eps_def)
  have u: "[0..<3] = [0, 1, 2]" by (simp add: upt_rec)
  show ?thesis
    using allocate_all_hard[of 7 1 3 "[0, 0, 0]" 1 True, OF _ _ _ e] e by (simp add: u)
qed

text \<open>
  Claim C6, as stated, for every budget: two hard keys, bounds \<open>[2, 4]\<close> and budget
  \<open>1\<close>.  The even split \<open>[1 div 2 + 1, 1 div 2] = [1, 0]\<close> is clipped to \<open>[2, 2]\<close>.
\<close>

theorem allocate_all_hard_counterexample:
  "allocate_with_extremes [0, 0] 1 2 4 1 True = Inr [2, 2]
   \<and> [2, 2] \<noteq> [1 div 2 + 1, 1 div 2 :: int]"
  by code_simp






section \<open>Allocator: optimality of the DP\<close>

lemma inner_step_eq:
  assumes "prev ! nat (b - k) = NEG \<or> 0 \<le> prev ! nat (b - k)"
  shows "inner_step prev vi b (v, k0) k =
     (if 0 \<le> prev ! nat (b - k) \<and> v < prev ! nat (b - k) + extra_gain vi k
      then (prev ! nat (b - k) + extra_gain vi k, k) else (v, k0))"
proof (cases "0 \<le> prev ! nat (b - k)")
  case True
  then have "\<not> prev ! nat (b - k) \<le> - (10 ^ 29)" by simp
  then show ?thesis using True by (simp add: Let_def extra_gain_def)
next
  case False
  then have "prev ! nat (b - k) = NEG" using assms by simp
  then have "prev ! nat (b - k) \<le> - (10 ^ 29)" by (simp add: NEG_def)
  then show ?thesis using False by (simp add: Let_def)
qed

lemma inner_fold_spec:
  assumes "\<forall>k\<in>set ks. prev ! nat (b - k) = NEG \<or> 0 \<le> prev ! nat (b - k)"
  shows "v \<le> fst (foldl (inner_step prev vi b) (v, k0) ks)
     \<and> (\<forall>k\<in>set ks. 0 \<le> prev ! nat (b - k) \<longrightarrow>
            prev ! nat (b - k) + extra_gain vi k \<le> fst (foldl (inner_step prev vi b) (v, k0) ks))
     \<and> (foldl (inner_step prev vi b) (v, k0) ks = (v, k0)
        \<or> (snd (foldl (inner_step prev vi b) (v, k0) ks) \<in> set ks
            \<and> 0 \<le> prev ! nat (b - snd (foldl (inner_step prev vi b) (v, k0) ks))
            \<and> fst (foldl (inner_step prev vi b) (v, k0) ks)
                = prev ! nat (b - snd (foldl (inner_step prev vi b) (v, k0) ks))
                  + extra_gain vi (snd (foldl (inner_step prev vi b) (v, k0) ks))))"
  using assms
proof (induction ks arbitrary: v k0)
  case Nil
  then show ?case by simp
next
  case (Cons k ks)
  have ck: "prev ! nat (b - k) = NEG \<or> 0 \<le> prev ! nat (b - k)" using Cons.prems by simp
  have rest: "\<forall>k\<in>set ks. prev ! nat (b - k) = NEG \<or> 0 \<le> prev ! nat (b - k)"
    using Cons.prems by simp
  show ?case
  proof (cases "0 \<le> prev ! nat (b - k) \<and> v < prev ! nat (b - k) + extra_gain vi k")
    case True
    let ?v1 = "prev ! nat (b - k) + extra_gain vi k"
    have st: "inner_step prev vi b (v, k0) k = (?v1, k)"
      unfolding inner_step_eq[OF ck] using True by simp
    let ?r = "foldl (inner_step prev vi b) (?v1, k) ks"
    have IH: "?v1 \<le> fst ?r
     \<and> (\<forall>k\<in>set ks. 0 \<le> prev ! nat (b - k) \<longrightarrow> prev ! nat (b - k) + extra_gain vi k \<le> fst ?r)
     \<and> (?r = (?v1, k)
        \<or> (snd ?r \<in> set ks \<and> 0 \<le> prev ! nat (b - snd ?r)
            \<and> fst ?r = prev ! nat (b - snd ?r) + extra_gain vi (snd ?r)))"
      by (rule Cons.IH[OF rest])
    have r: "foldl (inner_step prev vi b) (v, k0) (k # ks) = ?r" using st by simp
    show ?thesis unfolding r using IH True by auto
  next
    case False
    have st: "inner_step prev vi b (v, k0) k = (v, k0)"
      unfolding inner_step_eq[OF ck] using False by simp
    let ?r = "foldl (inner_step prev vi b) (v, k0) ks"
    have IH: "v \<le> fst ?r
     \<and> (\<forall>k\<in>set ks. 0 \<le> prev ! nat (b - k) \<longrightarrow> prev ! nat (b - k) + extra_gain vi k \<le> fst ?r)
     \<and> (?r = (v, k0)
        \<or> (snd ?r \<in> set ks \<and> 0 \<le> prev ! nat (b - snd ?r)
            \<and> fst ?r = prev ! nat (b - snd ?r) + extra_gain vi (snd ?r)))"
      by (rule Cons.IH[OF rest])
    have r: "foldl (inner_step prev vi b) (v, k0) (k # ks) = ?r" using st by simp
    show ?thesis unfolding r using IH False by auto
  qed
qed

lemma extra_gain_nonneg: "mono_table vi W \<Longrightarrow> k \<le> W \<Longrightarrow> 0 \<le> extra_gain vi k"
  by (simp add: extra_gain_def mono_table_def)

lemma row_ok_cell: "row_ok prev B \<Longrightarrow> 0 \<le> j \<Longrightarrow> j \<le> B \<Longrightarrow> prev ! nat j = NEG \<or> 0 \<le> prev ! nat j"
  by (simp add: row_ok_def)

lemma dp_cell_spec:
  assumes "row_ok prev B" "0 \<le> b" "b \<le> B" "0 \<le> W" "mono_table vi W"
  shows "fst (dp_cell prev vi W b) = NEG \<or> 0 \<le> fst (dp_cell prev vi W b)"
    and "\<And>e. 0 \<le> e \<Longrightarrow> e \<le> b \<Longrightarrow> e \<le> W \<Longrightarrow> 0 \<le> prev ! nat (b - e) \<Longrightarrow>
           prev ! nat (b - e) + extra_gain vi e \<le> fst (dp_cell prev vi W b)"
    and "0 \<le> fst (dp_cell prev vi W b) \<Longrightarrow>
           0 \<le> prev ! nat (b - snd (dp_cell prev vi W b))
           \<and> fst (dp_cell prev vi W b)
               = prev ! nat (b - snd (dp_cell prev vi W b)) + extra_gain vi (snd (dp_cell prev vi W b))"
proof -
  let ?ks = "[0..min b W]"
  let ?r = "foldl (inner_step prev vi b) (prev ! nat b, 0) ?ks"
  have r: "dp_cell prev vi W b = ?r" by (simp add: dp_cell_def)
  have cells: "\<forall>k\<in>set ?ks. prev ! nat (b - k) = NEG \<or> 0 \<le> prev ! nat (b - k)"
  proof
    fix k assume "k \<in> set ?ks"
    then have "0 \<le> b - k" "b - k \<le> B" using assms(3) by auto
    then show "prev ! nat (b - k) = NEG \<or> 0 \<le> prev ! nat (b - k)"
      by (rule row_ok_cell[OF assms(1)])
  qed
  have sp: "prev ! nat b \<le> fst ?r
     \<and> (\<forall>k\<in>set ?ks. 0 \<le> prev ! nat (b - k) \<longrightarrow> prev ! nat (b - k) + extra_gain vi k \<le> fst ?r)
     \<and> (?r = (prev ! nat b, 0)
        \<or> (snd ?r \<in> set ?ks \<and> 0 \<le> prev ! nat (b - snd ?r)
            \<and> fst ?r = prev ! nat (b - snd ?r) + extra_gain vi (snd ?r)))"
    by (rule inner_fold_spec[OF cells])
  have b0: "prev ! nat b = NEG \<or> 0 \<le> prev ! nat b"
    by (rule row_ok_cell[OF assms(1,2,3)])
  have g0: "extra_gain vi 0 = 0" by (simp add: extra_gain_def)
  show "fst (dp_cell prev vi W b) = NEG \<or> 0 \<le> fst (dp_cell prev vi W b)"
  proof (cases "?r = (prev ! nat b, 0)")
    case True
    then show ?thesis unfolding r using b0 by simp
  next
    case False
    then have k: "snd ?r \<in> set ?ks" "0 \<le> prev ! nat (b - snd ?r)"
        "fst ?r = prev ! nat (b - snd ?r) + extra_gain vi (snd ?r)"
      using sp by blast+
    have "snd ?r \<le> W" using k(1) by simp
    then have "0 \<le> extra_gain vi (snd ?r)" by (rule extra_gain_nonneg[OF assms(5)])
    then show ?thesis unfolding r using k(2,3) by simp
  qed
  show "prev ! nat (b - e) + extra_gain vi e \<le> fst (dp_cell prev vi W b)"
    if "0 \<le> e" "e \<le> b" "e \<le> W" "0 \<le> prev ! nat (b - e)" for e
  proof -
    have "e \<in> set ?ks" using that by simp
    then show ?thesis unfolding r using sp that(4) by blast
  qed
  show "0 \<le> prev ! nat (b - snd (dp_cell prev vi W b))
           \<and> fst (dp_cell prev vi W b)
               = prev ! nat (b - snd (dp_cell prev vi W b)) + extra_gain vi (snd (dp_cell prev vi W b))"
    if "0 \<le> fst (dp_cell prev vi W b)"
  proof (cases "?r = (prev ! nat b, 0)")
    case True
    then show ?thesis unfolding r using that[unfolded r] g0 by simp
  next
    case False
    then show ?thesis unfolding r using sp by blast
  qed
qed

lemma dp_row_ok:
  assumes "row_ok prev B" "0 \<le> W" "mono_table vi W"
  shows "row_ok (map fst (dp_row prev vi B W)) B"
  unfolding row_ok_def
proof (intro conjI allI impI)
  show "length (map fst (dp_row prev vi B W)) = nat (B + 1)" by (simp add: length_dp_row)
  fix j assume j: "0 \<le> j \<and> j \<le> B"
  then have n: "map fst (dp_row prev vi B W) ! nat j = fst (dp_cell prev vi W j)"
    by (simp add: dp_row_nth length_dp_row)
  show "map fst (dp_row prev vi B W) ! nat j = NEG \<or> 0 \<le> map fst (dp_row prev vi B W) ! nat j"
    unfolding n using dp_cell_spec(1)[OF assms(1) _ _ assms(2,3), of j] j by simp
qed




lemma dp_final_ok:
  "row_ok prev B \<Longrightarrow> 0 \<le> W \<Longrightarrow> \<forall>vi\<in>set vt. mono_table vi W \<Longrightarrow> row_ok (dp_final prev vt B W) B"
proof (induction vt arbitrary: prev)
  case Nil
  then show ?case by simp
next
  case (Cons vi vt)
  have "row_ok (map fst (dp_row prev vi B W)) B"
    by (rule dp_row_ok[OF Cons.prems(1,2)]) (use Cons.prems(3) in simp)
  then show ?case using Cons.IH Cons.prems by simp
qed




















section \<open>Allocator: claims on the DP\<close>









end
